theory Spec2Isabelle
  imports Complex_Main "HOL-Library.Multiset" "HOL-Library.AList"
begin

section \<open>The congestion-probability library \<open>tecontroller/res/problib.py\<close>\<close>

text \<open>
  The module is Python 2 code.  Python integers are modelled as \<^typ>\<open>int\<close>, Python floats
  (and the numeric edge attributes of the graphs) as \<^typ>\<open>real\<close>.  In the recurrence and in
  \<open>ExactCongestionProbability\<close> the arithmetic on them is exact: the rounding of IEEE doubles
  is not part of the model of these functions, and what is proved about them is which branch
  they take, what they store and write, and which quotient of counts they return, not the
  digits of a float.  In \<open>getPathProbability\<close> and \<open>flowCongestionProbability\<close> every float
  operation is rounded explicitly.  Exceptions are values of \<open>py_error\<close>; an operation that
  can raise returns \<open>py_error + 'a\<close>.
\<close>

datatype py_error = KeyError | ValueError | ZeroDivisionError | IndexError

subsection \<open>The memoization store and the calculator object\<close>

text \<open>
  \<open>self.sdict\<close> is a dictionary from triples \<open>(m, n, k)\<close> to floats.  The dump file is
  modelled by the list of the contents written to it, the most recent first: \<open>dumpSDict\<close>
  opens the file for writing and stores the marshalled dictionary, which overwrites the file.
\<close>

type_synonym key = "int \<times> int \<times> int"
type_synonym store = "key \<rightharpoonup> real"

record calc =
  sdict :: store
  dfile :: "store list"

definition dumpSDict :: "calc \<Rightarrow> calc" where
  "dumpSDict c = c\<lparr>dfile := sdict c # dfile c\<rparr>"

subsection \<open>Library functions used by the recurrence\<close>

text \<open>
  \<open>scipy.misc.comb(N, k)\<close> is the binomial coefficient as a float; it is documented to be 0
  when \<open>k > N\<close>, \<open>N < 0\<close> or \<open>k < 0\<close>.
\<close>

definition comb :: "int \<Rightarrow> int \<Rightarrow> real" where
  "comb N k = (if 0 \<le> k \<and> k \<le> N then real (nat N choose nat k) else 0)"

text \<open>Python's \<open>x ** e\<close> for a float \<open>x\<close> and an integer \<open>e\<close>.\<close>

definition fpow :: "real \<Rightarrow> int \<Rightarrow> real" where
  "fpow x e = (if 0 \<le> e then x ^ nat e else inverse (x ^ nat (- e)))"

text \<open>
  Python 2's \<open>map(f, xs)\<close> calls \<open>f\<close> on the elements from left to right and builds the list
  of the results; here \<open>f\<close> has an effect on the state, which is threaded through the calls.
\<close>

fun map_st :: "('a \<Rightarrow> 's \<Rightarrow> 'b \<times> 's) \<Rightarrow> 'a list \<Rightarrow> 's \<Rightarrow> 'b list \<times> 's" where
  "map_st f [] s = ([], s)"
| "map_st f (x # xs) s =
     (case f x s of (y, s1) \<Rightarrow> (case map_st f xs s1 of (ys, s2) \<Rightarrow> (y # ys, s2)))"

lemma map_st_cong [fundef_cong]:
  "xs = ys \<Longrightarrow> s = t \<Longrightarrow> (\<And>x u. x \<in> set ys \<Longrightarrow> f x u = g x u)
     \<Longrightarrow> map_st f xs s = map_st g ys t"
proof (induction ys arbitrary: xs s t)
  case Nil
  then show ?case by simp
next
  case (Cons y ys)
  then show ?case by (auto split: prod.splits)
qed

text \<open>\<open>sum(xs)\<close> starts from 0 and adds the elements from left to right.\<close>

definition py_sum :: "real list \<Rightarrow> real" where
  "py_sum xs = fold (\<lambda>x acc. acc + x) xs 0"

subsection \<open>\<open>SNonCongestionProbability\<close> and \<open>SCongestionProbability\<close>\<close>

text \<open>
  The factor \<open>float(comb(n, t)) * ((1/float(m))**t) * ((m-1)/float(m))**(n-t)\<close> of the
  lambda in \<open>SNonCongestionProbability\<close>.
\<close>

definition binom_term :: "int \<Rightarrow> int \<Rightarrow> int \<Rightarrow> real" where
  "binom_term m n t =
     comb n t * fpow (1 / real_of_int m) t * fpow (real_of_int (m - 1) / real_of_int m) (n - t)"

function SNonCongestionProbability :: "int \<Rightarrow> int \<Rightarrow> int \<Rightarrow> calc \<Rightarrow> real \<times> calc" where
  "SNonCongestionProbability m n k c =
     (case sdict c (m, n, k) of
        Some v \<Rightarrow> (v, c)
      | None \<Rightarrow>
          if m * k < n then (0, c)
          else if n \<le> k then (1, c)
          else
            (case map_st (\<lambda>t c'. case SNonCongestionProbability (m - 1) (n - t) k c' of
                               (p, c'') \<Rightarrow> (p * binom_term m n t, c''))
                         [0..k] c of
               (vals, c1) \<Rightarrow>
                 let result = py_sum vals in
                 (result,
                  if sdict c1 (m, n, k) = None
                  then c1\<lparr>sdict := (sdict c1)((m, n, k) \<mapsto> result)\<rparr>
                  else c1)))"
  by pat_completeness auto

text \<open>
  The recursive branch is reached with a non-empty \<open>range(0, k+1)\<close> only when there are at
  least two paths, so the first argument decreases and stays positive.
\<close>

lemma rec_args_pos:
  fixes m n k :: int
  assumes "\<not> m * k < n" "\<not> n \<le> k" "0 \<le> k"
  shows "2 \<le> m \<and> 1 \<le> k"
proof -
  have nk: "0 < n" "k < n" using assms by auto
  have mk: "n \<le> m * k" using assms by simp
  have kpos: "0 < k"
  proof (rule ccontr)
    assume "\<not> 0 < k"
    then have "k = 0" using assms by simp
    then show False using mk nk by simp
  qed
  have "k < m * k" using mk nk by simp
  then have "1 * k < m * k" by simp
  then have "1 < m" using kpos by (simp only: mult_less_cancel_right_pos)
  then show ?thesis using kpos by simp
qed

termination SNonCongestionProbability
proof (relation "measure (\<lambda>(m, n, k, c). nat m)")
  show "wf (measure (\<lambda>(m, n, k, c). nat m))" by simp
next
  fix m n k :: int and c :: calc and t :: int and c' :: calc
  assume "\<not> m * k < n" "\<not> n \<le> k" "t \<in> set [0..k]"
  then have "2 \<le> m" using rec_args_pos [of m k n] by auto
  then show "((m - 1, n - t, k, c'), (m, n, k, c)) \<in> measure (\<lambda>(m, n, k, c). nat m)"
    by simp
qed

declare SNonCongestionProbability.simps [simp del]

text \<open>The lambda that \<open>SNonCongestionProbability\<close> maps over \<open>range(0, k+1)\<close>.\<close>

abbreviation SNon_body :: "int \<Rightarrow> int \<Rightarrow> int \<Rightarrow> int \<Rightarrow> calc \<Rightarrow> real \<times> calc" where
  "SNon_body m n k t c' \<equiv>
     (case SNonCongestionProbability (m - 1) (n - t) k c' of
        (p, c'') \<Rightarrow> (p * binom_term m n t, c''))"

definition SCongestionProbability :: "int \<Rightarrow> int \<Rightarrow> int \<Rightarrow> calc \<Rightarrow> real \<times> calc" where
  "SCongestionProbability m n k c =
     (case sdict c (m, n, k) of
        Some v \<Rightarrow> (1 - v, c)
      | None \<Rightarrow>
          (case SNonCongestionProbability m n k c of
             (sncp, c1) \<Rightarrow>
               (1 - sncp, dumpSDict (c1\<lparr>sdict := (sdict c1)((m, n, k) \<mapsto> sncp)\<rparr>))))"

text \<open>A calculator whose store is empty and whose dump file has not been written.\<close>

definition empty_calc :: calc where
  "empty_calc = \<lparr>sdict = Map.empty, dfile = []\<rparr>"

text \<open>
  A sequence of calls on one \<open>ProbabiliyCalculator\<close> instance: each call receives the
  object as the previous call left it.
\<close>

datatype call = CallSNon int int int | CallSCong int int int

fun do_call :: "call \<Rightarrow> calc \<Rightarrow> calc" where
  "do_call (CallSNon m n k) c = snd (SNonCongestionProbability m n k c)"
| "do_call (CallSCong m n k) c = snd (SCongestionProbability m n k c)"

definition run_calls :: "call list \<Rightarrow> calc \<Rightarrow> calc" where
  "run_calls cs c = fold do_call cs c"

text \<open>
  Used in the proofs: every key that is bound in \<open>b\<close> and not in \<open>a\<close> has a first component
  at most \<open>j\<close>.
\<close>

definition new_keys_le :: "int \<Rightarrow> calc \<Rightarrow> calc \<Rightarrow> bool" where
  "new_keys_le j a b = (\<forall>key. sdict a key = None \<longrightarrow> sdict b key \<noteq> None \<longrightarrow> fst key \<le> j)"

text \<open>A calculator whose store already holds one entry.\<close>

definition demo_calc :: calc where
  "demo_calc = \<lparr>sdict = [(2, 3, 2) \<mapsto> 3 / 4], dfile = []\<rparr>"

section \<open>Floating-point arithmetic\<close>

text \<open>
  \<open>getPathProbability\<close> and \<open>flowCongestionProbability\<close> compute with \<open>+\<close>, \<open>*\<close> and
  \<open>/\<close> on Python floats.  Their models take the rounding of these operations as a parameter
  \<open>rnd\<close>, applied to the exact result of every operation: \<open>exact\<close> is arithmetic without
  rounding, \<open>double\<close> is the rounding of IEEE 754 binary64 (round to nearest, ties to even),
  which is what Python floats do.
\<close>

abbreviation (input) exact :: "real \<Rightarrow> real" where
  "exact \<equiv> (\<lambda>x. x)"

text \<open>The integer nearest to \<open>y\<close>; of two nearest integers, the even one.\<close>

definition round_even :: "real \<Rightarrow> int" where
  "round_even y =
     (let f = \<lfloor>y\<rfloor>; r = y - of_int f in
      if r < 1 / 2 then f else if 1 / 2 < r then f + 1 else if even f then f else f + 1)"

text \<open>
  The exponent \<open>e\<close> with \<open>2 powi e \<le> a < 2 powi (e + 1)\<close>, searched from 0 outwards.
\<close>

definition exponent_candidates :: "int list" where
  "exponent_candidates = concat (map (\<lambda>i. [- int i, int i]) [0..<1100])"

definition binade :: "real \<Rightarrow> int option" where
  "binade a = find (\<lambda>e. 2 powi e \<le> a \<and> a < 2 powi (e + 1)) exponent_candidates"

text \<open>
  A double has 53 significant bits: a number in the binade \<open>e\<close> is rounded to a multiple of
  \<open>2 powi (e - 52)\<close>, and a number below the smallest normal double to a multiple of
  \<open>2 powi (- 1074)\<close>.  Overflow (a magnitude of \<open>2 powi 1024\<close> or more) is not modelled.
\<close>

definition double :: "real \<Rightarrow> real" where
  "double x =
     (if \<bar>x\<bar> < 2 powi (- 1022) then of_int (round_even (x * 2 powi 1074)) * 2 powi (- 1074)
      else
        (case binade \<bar>x\<bar> of
           Some e \<Rightarrow> of_int (round_even (x * 2 powi (52 - e))) * 2 powi (e - 52)
         | None \<Rightarrow> x))"

section \<open>Graphs, paths and the probabilities computed on them\<close>

subsection \<open>The graph\<close>

text \<open>
  The graphs are \<open>networkx.DiGraph\<close> objects, used through three operations only:
  \<open>x in dag\<close>, \<open>dag[x]\<close> (the dictionary from the successors of \<open>x\<close> to the attributes of
  the edges, iterated and measured with \<open>len\<close>) and \<open>dag[x][y]['capacity']\<close>,
  \<open>dag[x][y]['mincap']\<close>.  A dictionary is an association list, in iteration order; every
  edge carries its two numeric attributes.  Looking up a key that is absent raises
  \<open>KeyError\<close>.
\<close>

record edge =
  capacity :: real
  mincap :: real

type_synonym 'n dag = "('n \<times> ('n \<times> edge) list) list"

text \<open>\<open>dag[x][y]\<close>\<close>

definition edge_of :: "'n dag \<Rightarrow> 'n \<Rightarrow> 'n \<Rightarrow> py_error + edge" where
  "edge_of dag x y =
     (case map_of dag x of
        None \<Rightarrow> Inl KeyError
      | Some adj \<Rightarrow> (case map_of adj y of None \<Rightarrow> Inl KeyError | Some e \<Rightarrow> Inr e))"

text \<open>\<open>dag[x][y]['capacity'] = cap\<close>, for an edge that exists.\<close>

definition set_capacity :: "'n dag \<Rightarrow> 'n \<Rightarrow> 'n \<Rightarrow> real \<Rightarrow> 'n dag" where
  "set_capacity dag x y cap =
     (case map_of dag x of
        None \<Rightarrow> dag
      | Some adj \<Rightarrow>
          (case map_of adj y of
             None \<Rightarrow> dag
           | Some e \<Rightarrow> AList.update x (AList.update y (e\<lparr>capacity := cap\<rparr>) adj) dag))"

text \<open>\<open>zip(path[:-1], path[1:])\<close>: the edges of a path.\<close>

definition path_edges :: "'n list \<Rightarrow> ('n \<times> 'n) list" where
  "path_edges path = zip (butlast path) (tl path)"

subsection \<open>\<open>getAllPathsLimDAG\<close>\<close>

text \<open>All the nodes that a graph mentions, as keys or as successors.\<close>

definition dag_nodes :: "'n dag \<Rightarrow> 'n set" where
  "dag_nodes dag = set (map fst dag) \<union> set (concat (map (\<lambda>(x, adj). map fst adj) dag))"

function getAllPathsLimDAG :: "'n dag \<Rightarrow> 'n \<Rightarrow> 'n \<Rightarrow> int \<Rightarrow> 'n list \<Rightarrow> 'n list list" where
  "getAllPathsLimDAG dag start end_node k path =
     (if start = end_node then [path @ [start]]
      else
        (case map_of dag start of
           None \<Rightarrow> []
         | Some adj \<Rightarrow>
             concat (map (\<lambda>node.
                       if node \<notin> set (path @ [start]) then
                         (if k = 0 then getAllPathsLimDAG dag node end_node k (path @ [start])
                          else if int (length (path @ [start])) < k + 1
                          then getAllPathsLimDAG dag node end_node k (path @ [start])
                          else [])
                       else [])
                     (map fst adj))))"
  by pat_completeness auto

lemma successor_in_dag_nodes:
  assumes "map_of dag x = Some adj" "y \<in> set (map fst adj)"
  shows "y \<in> dag_nodes dag"
proof -
  have mem: "(x, adj) \<in> set dag" using assms(1) by (rule map_of_SomeD)
  have "y \<in> set (case (x, adj) of (x, adj) \<Rightarrow> map fst adj)" using assms(2) by simp
  then have "y \<in> (\<Union>z\<in>set dag. set (case z of (x, adj) \<Rightarrow> map fst adj))"
    using mem by (rule UN_I [rotated])
  then have "y \<in> set (concat (map (\<lambda>(x, adj). map fst adj) dag))"
    by (simp only: set_concat set_map image_image)
  then show ?thesis unfolding dag_nodes_def by (rule UnI2)
qed

lemma unvisited_decreases:
  assumes "map_of dag x = Some adj" "y \<in> set (map fst adj)" "y \<notin> set p"
  shows "card (dag_nodes dag - set (p @ [y])) < card (dag_nodes dag - set p)"
proof -
  have "finite (dag_nodes dag)" unfolding dag_nodes_def by (intro finite_UnI finite_set)
  then have fin: "finite (dag_nodes dag - set p)" by (rule finite_Diff)
  have mem: "y \<in> dag_nodes dag - set p"
    using successor_in_dag_nodes [OF assms(1,2)] assms(3) by simp
  have eq: "dag_nodes dag - set (p @ [y]) = (dag_nodes dag - set p) - {y}" by auto
  show ?thesis unfolding eq using fin mem by (rule card_Diff1_less)
qed

termination getAllPathsLimDAG
proof (relation "measure (\<lambda>(dag, start, end_node, k, path).
                   card (dag_nodes dag - set (path @ [start])))")
  show "wf (measure (\<lambda>(dag, start, end_node, k, path).
                   card (dag_nodes dag - set (path @ [start]))))" by simp
next
  fix dag :: "'n dag" and start end_node :: 'n and k :: int and path adj node
  assume a: "map_of dag start = Some adj" "node \<in> set (map fst adj)"
    "node \<notin> set (path @ [start])"
  show "((dag, node, end_node, k, path @ [start]), (dag, start, end_node, k, path))
      \<in> measure (\<lambda>(dag, start, end_node, k, path). card (dag_nodes dag - set (path @ [start])))"
    using unvisited_decreases [OF a] by (simp only: in_measure prod.case)
next
  fix dag :: "'n dag" and start end_node :: 'n and k :: int and path adj node
  assume a: "map_of dag start = Some adj" "node \<in> set (map fst adj)"
    "node \<notin> set (path @ [start])"
  show "((dag, node, end_node, k, path @ [start]), (dag, start, end_node, k, path))
      \<in> measure (\<lambda>(dag, start, end_node, k, path). card (dag_nodes dag - set (path @ [start])))"
    using unvisited_decreases [OF a] by (simp only: in_measure prod.case)
qed

declare getAllPathsLimDAG.simps [simp del]

subsection \<open>\<open>getMinCapacity\<close>\<close>

text \<open>
  The list comprehension \<open>[dag[u][v]['capacity'] for u, v in zip(path[:-1], path[1:])]\<close>;
  the first failing lookup raises.
\<close>

fun edge_caps :: "'n dag \<Rightarrow> ('n \<times> 'n) list \<Rightarrow> py_error + real list" where
  "edge_caps dag [] = Inr []"
| "edge_caps dag ((u, v) # es) =
     (case edge_of dag u v of
        Inl e \<Rightarrow> Inl e
      | Inr ed \<Rightarrow> (case edge_caps dag es of Inl e \<Rightarrow> Inl e | Inr cs \<Rightarrow> Inr (capacity ed # cs)))"

text \<open>\<open>min(caps)\<close> raises \<open>ValueError\<close> on an empty list.\<close>

definition py_min :: "real list \<Rightarrow> py_error + real" where
  "py_min caps = (case caps of [] \<Rightarrow> Inl ValueError | c # cs \<Rightarrow> Inr (fold min cs c))"

definition getMinCapacity :: "'n dag \<Rightarrow> 'n list \<Rightarrow> py_error + real" where
  "getMinCapacity dag path =
     (case edge_caps dag (path_edges path) of Inl e \<Rightarrow> Inl e | Inr caps \<Rightarrow> py_min caps)"

subsection \<open>\<open>getPathProbability\<close> and \<open>flowCongestionProbability\<close>\<close>

text \<open>
  The loop \<open>for node in path[:-1]\<close> with its accumulator \<open>probability\<close>: \<open>dag[node]\<close> raises
  \<open>KeyError\<close> for a node that is not in the graph, and \<open>1/float(children)\<close> raises
  \<open>ZeroDivisionError\<close> for a node without successors.  The division and the
  multiplication are float operations, rounded by \<open>rnd\<close>; the conversion \<open>float(children)\<close>
  of a count is exact.
\<close>

fun prob_loop :: "(real \<Rightarrow> real) \<Rightarrow> 'n dag \<Rightarrow> 'n list \<Rightarrow> real \<Rightarrow> py_error + real" where
  "prob_loop rnd dag [] probability = Inr probability"
| "prob_loop rnd dag (node # rest) probability =
     (case map_of dag node of
        None \<Rightarrow> Inl KeyError
      | Some adj \<Rightarrow>
          if length adj = 0 then Inl ZeroDivisionError
          else prob_loop rnd dag rest (rnd (probability * rnd (1 / real (length adj)))))"

definition getPathProbability :: "(real \<Rightarrow> real) \<Rightarrow> 'n dag \<Rightarrow> 'n list \<Rightarrow> py_error + real" where
  "getPathProbability rnd dag path = prob_loop rnd dag (butlast path) 1"




subsection \<open>\<open>ExactCongestionProbability\<close>\<close>





section \<open>The allocation list of \<open>SampledCongestionProbability\<close>\<close>

text \<open>
  \<open>SampledCongestionProbability\<close> first builds the list \<open>final_allocs\<close> of the allocations of
  flows to paths and then draws random samples from it; the construction of the list is
  modelled here.  The two generators come from Python's \<open>itertools\<close> and follow its
  documentation.

  \<open>itertools.combinations_with_replacement(pool, r)\<close> yields the tuples of \<open>r\<close> elements of
  \<open>pool\<close> whose positions in \<open>pool\<close> do not decrease, in lexicographic order of the positions.
\<close>

fun combinations_with_replacement :: "'a list \<Rightarrow> nat \<Rightarrow> 'a list list" where
  "combinations_with_replacement pool 0 = [[]]"
| "combinations_with_replacement [] (Suc r) = []"
| "combinations_with_replacement (x # xs) (Suc r) =
     map ((#) x) (combinations_with_replacement (x # xs) r)
       @ combinations_with_replacement xs (Suc r)"

text \<open>
  \<open>itertools.permutations(p)\<close> yields every ordering of the positions of \<open>p\<close>, in
  lexicographic order of the positions; elements are told apart by position, not by value,
  so a tuple with equal elements yields equal permutations several times.
\<close>

function permutations :: "'a list \<Rightarrow> 'a list list" where
  "permutations [] = [[]]"
| "permutations (x # xs) =
     concat (map (\<lambda>i. map ((#) ((x # xs) ! i))
                          (permutations (take i (x # xs) @ drop (Suc i) (x # xs))))
                 [0..<length (x # xs)])"
  by pat_completeness auto

termination permutations
proof (relation "measure length")
  show "wf (measure length)" by simp
next
  fix x :: 'a and xs :: "'a list" and i :: nat
  assume "i \<in> set [0..<length (x # xs)]"
  then have "i < length (x # xs)" by (simp only: set_upt atLeastLessThan_iff)
  then have "length (take i (x # xs) @ drop (Suc i) (x # xs)) < length (x # xs)"
    by (simp only: length_append length_take length_drop)
  then show "(take i (x # xs) @ drop (Suc i) (x # xs), x # xs) \<in> measure length"
    by (simp only: in_measure)
qed

declare permutations.simps [simp del]

text \<open>
  The comprehension \<open>[final_allocs.append(a) for a in all_allocs if a not in final_allocs]\<close>
  keeps the first occurrence of every element, in order.
\<close>

definition append_if_new :: "'a \<Rightarrow> 'a list \<Rightarrow> 'a list" where
  "append_if_new a final_allocs = (if a \<in> set final_allocs then final_allocs else final_allocs @ [a])"

definition final_allocs :: "real list \<Rightarrow> real list \<Rightarrow> nat list list" where
  "final_allocs m n =
     (let all_allocs =
        concat (map permutations (combinations_with_replacement [0..<length m] (length n)))
      in fold append_if_new all_allocs [])"

section \<open>Notions used to state the properties\<close>

text \<open>
  The edge \<open>(x, y)\<close> exists: \<open>x\<close> is in the graph and \<open>y\<close> is in \<open>dag[x]\<close>.  The two
  attributes of an edge, read without the exception (0 where there is no edge; the
  statements below use them for existing edges only).
\<close>

definition has_edge :: "'n dag \<Rightarrow> 'n \<times> 'n \<Rightarrow> bool" where
  "has_edge dag e = (case edge_of dag (fst e) (snd e) of Inr ed \<Rightarrow> True | Inl err \<Rightarrow> False)"

definition edge_capacity :: "'n dag \<Rightarrow> 'n \<times> 'n \<Rightarrow> real" where
  "edge_capacity dag e = (case edge_of dag (fst e) (snd e) of Inr ed \<Rightarrow> capacity ed | Inl err \<Rightarrow> 0)"

definition edge_mincap :: "'n dag \<Rightarrow> 'n \<times> 'n \<Rightarrow> real" where
  "edge_mincap dag e = (case edge_of dag (fst e) (snd e) of Inr ed \<Rightarrow> mincap ed | Inl err \<Rightarrow> 0)"

text \<open>The number of successors of a node, \<open>len(dag[node])\<close>; 0 for a node outside the graph.\<close>

definition out_degree :: "'n dag \<Rightarrow> 'n \<Rightarrow> nat" where
  "out_degree dag v = (case map_of dag v of None \<Rightarrow> 0 | Some adj \<Rightarrow> length adj)"

text \<open>The successors of a node, in iteration order.\<close>

definition successors :: "'n dag \<Rightarrow> 'n \<Rightarrow> 'n list" where
  "successors dag v = (case map_of dag v of None \<Rightarrow> [] | Some adj \<Rightarrow> map fst adj)"

text \<open>
  The sum of the results of several calls, when all of them return, added from left to right
  starting from 0 as Python's \<open>sum\<close> does, every addition rounded by \<open>rnd\<close>.
\<close>

fun sum_from :: "(real \<Rightarrow> real) \<Rightarrow> real \<Rightarrow> (py_error + real) list \<Rightarrow> py_error + real" where
  "sum_from rnd acc [] = Inr acc"
| "sum_from rnd acc (Inl e # rs) = Inl e"
| "sum_from rnd acc (Inr x # rs) = sum_from rnd (rnd (acc + x)) rs"

definition sum_results :: "(real \<Rightarrow> real) \<Rightarrow> (py_error + real) list \<Rightarrow> py_error + real" where
  "sum_results rnd rs = sum_from rnd 0 rs"

text \<open>
  A directed path of the graph: every pair of consecutive nodes is an edge.  A loop-free
  path from \<open>s\<close> to \<open>t\<close> is a non-empty directed path without a repeated node that starts at
  \<open>s\<close> and ends at \<open>t\<close>.
\<close>

definition is_path :: "'n dag \<Rightarrow> 'n list \<Rightarrow> bool" where
  "is_path dag p = list_all (has_edge dag) (path_edges p)"

definition loop_free_path :: "'n dag \<Rightarrow> 'n \<Rightarrow> 'n \<Rightarrow> 'n list \<Rightarrow> bool" where
  "loop_free_path dag s t p = (p \<noteq> [] \<and> hd p = s \<and> last p = t \<and> distinct p \<and> is_path dag p)"

subsection \<open>Example graphs\<close>

datatype router = RA | RB | RC | RD

text \<open>The diamond \<open>RA \<rightarrow> RB\<close>, \<open>RA \<rightarrow> RC\<close>, \<open>RB \<rightarrow> RD\<close>, \<open>RC \<rightarrow> RD\<close>.\<close>

definition diamond :: "router dag" where
  "diamond =
     [(RA, [(RB, \<lparr>capacity = 10, mincap = 0\<rparr>), (RC, \<lparr>capacity = 3, mincap = 0\<rparr>)]),
      (RB, [(RD, \<lparr>capacity = 3, mincap = 0\<rparr>)]),
      (RC, [(RD, \<lparr>capacity = 7, mincap = 0\<rparr>)]),
      (RD, [])]"

text \<open>The chain \<open>RA \<rightarrow> RB \<rightarrow> RC \<rightarrow> RD\<close> with the capacities 10, 3 and 7.\<close>

definition chain :: "router dag" where
  "chain =
     [(RA, [(RB, \<lparr>capacity = 10, mincap = 0\<rparr>)]),
      (RB, [(RC, \<lparr>capacity = 3, mincap = 0\<rparr>)]),
      (RC, [(RD, \<lparr>capacity = 7, mincap = 0\<rparr>)]),
      (RD, [])]"


text \<open>A node 0 with the six successors 1 to 6.\<close>

definition fan6 :: "nat dag" where
  "fan6 =
     [(0, [(1, \<lparr>capacity = 1, mincap = 0\<rparr>), (2, \<lparr>capacity = 1, mincap = 0\<rparr>),
           (3, \<lparr>capacity = 1, mincap = 0\<rparr>), (4, \<lparr>capacity = 1, mincap = 0\<rparr>),
           (5, \<lparr>capacity = 1, mincap = 0\<rparr>), (6, \<lparr>capacity = 1, mincap = 0\<rparr>)]),
      (1, []), (2, []), (3, []), (4, []), (5, []), (6, [])]"


subsection \<open>Congested allocations\<close>

text \<open>
  The subtractions that an allocation makes, in assignment order: the flows in the order of
  the allocation, numbered from \<open>i\<close>, and for each flow the edges of its chosen path in path
  order, each with the size of the flow.
\<close>

definition alloc_steps :: "real list \<Rightarrow> nat \<Rightarrow> 'n list list \<Rightarrow> (('n \<times> 'n) \<times> real) list" where
  "alloc_steps flow_sizes i alloc =
     concat (map (\<lambda>(j, path). map (\<lambda>e. (e, flow_sizes ! j)) (path_edges path))
                 (enumerate i alloc))"



text \<open>
  Used in the proofs: the subtractions carried out on a working copy one after the other,
  stopping after the first one that leaves an edge below its \<open>mincap\<close>.
\<close>

fun run_steps :: "'n dag \<Rightarrow> (('n \<times> 'n) \<times> real) list \<Rightarrow> bool \<times> 'n dag" where
  "run_steps g [] = (False, g)"
| "run_steps g ((e, s) # rest) =
     (let g' = set_capacity g (fst e) (snd e) (edge_capacity g e - s) in
      if edge_capacity g' e < edge_mincap g' e then (True, g') else run_steps g' rest)"

subsection \<open>The probability of a path\<close>


section \<open>Properties of the recurrence and its store\<close>

subsection \<open>Unfolding the four branches of \<open>SNonCongestionProbability\<close>\<close>

lemma SNon_hit:
  "sdict c (m, n, k) = Some v \<Longrightarrow> SNonCongestionProbability m n k c = (v, c)"
  by (simp add: SNonCongestionProbability.simps [of m n k c])

lemma SNon_zero:
  "sdict c (m, n, k) = None \<Longrightarrow> m * k < n \<Longrightarrow> SNonCongestionProbability m n k c = (0, c)"
  by (simp add: SNonCongestionProbability.simps [of m n k c])

lemma SNon_one:
  "sdict c (m, n, k) = None \<Longrightarrow> \<not> m * k < n \<Longrightarrow> n \<le> k
     \<Longrightarrow> SNonCongestionProbability m n k c = (1, c)"
  by (simp add: SNonCongestionProbability.simps [of m n k c])

lemma SNon_rec:
  assumes "sdict c (m, n, k) = None" "\<not> m * k < n" "\<not> n \<le> k"
  shows "SNonCongestionProbability m n k c =
     (let r = map_st (SNon_body m n k) [0..k] c; result = py_sum (fst r) in
      (result,
       if sdict (snd r) (m, n, k) = None
       then (snd r)\<lparr>sdict := (sdict (snd r))((m, n, k) \<mapsto> result)\<rparr>
       else snd r))"
  using assms
  by (simp add: SNonCongestionProbability.simps [of m n k c] Let_def split: prod.splits)

lemma snd_case_prod_keep [simp]: "snd (case p of (a, b) \<Rightarrow> (g a, b)) = snd p"
  by (cases p) simp

lemma fst_case_prod_keep [simp]: "fst (case p of (a, b) \<Rightarrow> (g a, b)) = g (fst p)"
  by (cases p) simp

lemma map_st_rel:
  assumes refl: "\<And>s. R s s"
    and trans: "\<And>a b c. R a b \<Longrightarrow> R b c \<Longrightarrow> R a c"
    and step: "\<And>x s. x \<in> set xs \<Longrightarrow> R s (snd (f x s))"
  shows "R s (snd (map_st f xs s))"
  using step
proof (induction xs arbitrary: s)
  case Nil
  show ?case by (simp add: refl)
next
  case (Cons x xs)
  obtain y s1 where fx: "f x s = (y, s1)" by (cases "f x s")
  obtain ys s2 where rest: "map_st f xs s1 = (ys, s2)" by (cases "map_st f xs s1")
  have a: "R s s1" using Cons.prems [of x s] fx by simp
  have b: "R s1 s2" using Cons.IH [of s1] Cons.prems rest by simp
  show ?case using trans [OF a b] fx rest by simp
qed

lemma SNon_dfile: "dfile (snd (SNonCongestionProbability m n k c)) = dfile c"
proof (induction m n k c rule: SNonCongestionProbability.induct)
  case (1 m n k c)
  consider (hit) v where "sdict c (m, n, k) = Some v"
    | (zero) "sdict c (m, n, k) = None" "m * k < n"
    | (one) "sdict c (m, n, k) = None" "\<not> m * k < n" "n \<le> k"
    | (rec) "sdict c (m, n, k) = None" "\<not> m * k < n" "\<not> n \<le> k"
    by (cases "sdict c (m, n, k)") auto
  then show ?case
  proof cases
    case hit
    then show ?thesis by (simp add: SNon_hit)
  next
    case zero
    then show ?thesis by (simp add: SNon_zero)
  next
    case one
    then show ?thesis by (simp add: SNon_one)
  next
    case True: rec
    have step: "\<And>t s. t \<in> set [0..k] \<Longrightarrow> dfile (snd (SNon_body m n k t s)) = dfile s"
      using 1 True by simp
    have "dfile (snd (map_st (SNon_body m n k) [0..k] c)) = dfile c"
    proof (rule map_st_rel [where R = "\<lambda>a b. dfile b = dfile a"])
      fix t s assume "t \<in> set [0..k]"
      then show "dfile (snd (SNon_body m n k t s)) = dfile s" by (rule step)
    qed simp_all
    then show ?thesis using True
      by (simp add: SNon_rec Let_def)
  qed
qed

subsection \<open>The store only grows\<close>

lemma SNon_branches [case_names hit zero one rec]:
  obtains (hit) v where "sdict c (m, n, k) = Some v"
    | (zero) "sdict c (m, n, k) = None" "m * k < n"
    | (one) "sdict c (m, n, k) = None" "\<not> m * k < n" "n \<le> k"
    | (rec) "sdict c (m, n, k) = None" "\<not> m * k < n" "\<not> n \<le> k"
  by (cases "sdict c (m, n, k)") auto

lemma new_keys_le_refl: "new_keys_le j a a"
  by (simp add: new_keys_le_def)

lemma new_keys_le_trans: "new_keys_le j a b \<Longrightarrow> new_keys_le j b c \<Longrightarrow> new_keys_le j a c"
  unfolding new_keys_le_def by blast

lemma new_keys_le_mono: "new_keys_le i a b \<Longrightarrow> i \<le> j \<Longrightarrow> new_keys_le j a b"
  unfolding new_keys_le_def by force

lemma SNon_new_keys: "new_keys_le m c (snd (SNonCongestionProbability m n k c))"
proof (induction m n k c rule: SNonCongestionProbability.induct)
  case (1 m n k c)
  show ?case
  proof (cases rule: SNon_branches [of c m n k])
    case hit
    then show ?thesis by (simp add: SNon_hit new_keys_le_refl)
  next
    case zero
    then show ?thesis by (simp add: SNon_zero new_keys_le_refl)
  next
    case one
    then show ?thesis by (simp add: SNon_one new_keys_le_refl)
  next
    case rec
    have "new_keys_le (m - 1) c (snd (map_st (SNon_body m n k) [0..k] c))"
    proof (rule map_st_rel [where R = "new_keys_le (m - 1)"])
      fix t s assume "t \<in> set [0..k]"
      then show "new_keys_le (m - 1) s (snd (SNon_body m n k t s))"
        using 1 rec by simp
    qed (auto intro: new_keys_le_refl new_keys_le_trans)
    then have "new_keys_le m c (snd (map_st (SNon_body m n k) [0..k] c))"
      by (rule new_keys_le_mono) simp
    then show ?thesis using rec
      by (simp add: SNon_rec Let_def new_keys_le_def)
  qed
qed

lemma SNon_rec_key_fresh:
  assumes "sdict c (m, n, k) = None"
  shows "sdict (snd (map_st (SNon_body m n k) [0..k] c)) (m, n, k) = None"
proof -
  have "new_keys_le (m - 1) c (snd (map_st (SNon_body m n k) [0..k] c))"
  proof (rule map_st_rel [where R = "new_keys_le (m - 1)"])
    fix t s
    show "new_keys_le (m - 1) s (snd (SNon_body m n k t s))"
      using SNon_new_keys [of "m - 1" s "n - t" k] by simp
  qed (auto intro: new_keys_le_refl new_keys_le_trans)
  then have "sdict (snd (map_st (SNon_body m n k) [0..k] c)) (m, n, k) \<noteq> None
               \<longrightarrow> fst (m, n, k) \<le> m - 1"
    using assms unfolding new_keys_le_def by blast
  then show ?thesis by auto
qed

text \<open>A miss that takes the recursive branch stores the value it returns.\<close>

lemma SNon_rec_stores:
  assumes "sdict c (m, n, k) = None" "\<not> m * k < n" "\<not> n \<le> k"
  shows "sdict (snd (SNonCongestionProbability m n k c)) (m, n, k)
           = Some (fst (SNonCongestionProbability m n k c))"
  using assms SNon_rec_key_fresh [OF assms(1)]
  by (simp add: SNon_rec Let_def)

lemma SNon_store_mono: "sdict c \<subseteq>\<^sub>m sdict (snd (SNonCongestionProbability m n k c))"
proof (induction m n k c rule: SNonCongestionProbability.induct)
  case (1 m n k c)
  show ?case
  proof (cases rule: SNon_branches [of c m n k])
    case hit
    then show ?thesis by (simp add: SNon_hit)
  next
    case zero
    then show ?thesis by (simp add: SNon_zero)
  next
    case one
    then show ?thesis by (simp add: SNon_one)
  next
    case rec
    have "sdict c \<subseteq>\<^sub>m sdict (snd (map_st (SNon_body m n k) [0..k] c))"
    proof (rule map_st_rel [where R = "\<lambda>a b. sdict a \<subseteq>\<^sub>m sdict b"])
      fix t s assume "t \<in> set [0..k]"
      then show "sdict s \<subseteq>\<^sub>m sdict (snd (SNon_body m n k t s))"
        using 1 rec by simp
    qed (auto intro: map_le_trans)
    moreover have "sdict (snd (map_st (SNon_body m n k) [0..k] c)) (m, n, k) = None"
      using rec by (simp add: SNon_rec_key_fresh)
    ultimately show ?thesis using rec
      by (auto simp: SNon_rec Let_def map_le_def dom_def)
  qed
qed

lemma SNon_miss_after:
  assumes "sdict c (m, n, k) = None"
  shows "sdict (snd (SNonCongestionProbability m n k c)) (m, n, k) = None
       \<or> sdict (snd (SNonCongestionProbability m n k c)) (m, n, k)
           = Some (fst (SNonCongestionProbability m n k c))"
proof (cases rule: SNon_branches [of c m n k])
  case hit
  then show ?thesis using assms by simp
next
  case zero
  then show ?thesis by (simp add: SNon_zero)
next
  case one
  then show ?thesis by (simp add: SNon_one)
next
  case rec
  then show ?thesis by (simp add: SNon_rec_stores)
qed

lemma SCong_store_mono: "sdict c \<subseteq>\<^sub>m sdict (snd (SCongestionProbability m n k c))"
proof (cases "sdict c (m, n, k)")
  case (Some v)
  then show ?thesis by (simp add: SCongestionProbability_def)
next
  case None
  obtain v c1 where r: "SNonCongestionProbability m n k c = (v, c1)"
    by (cases "SNonCongestionProbability m n k c")
  have a: "sdict c \<subseteq>\<^sub>m sdict c1" using SNon_store_mono [of c m n k] r by simp
  have b: "sdict c1 (m, n, k) = None \<or> sdict c1 (m, n, k) = Some v"
    using SNon_miss_after [OF None] r by simp
  have "sdict c1 \<subseteq>\<^sub>m (sdict c1)((m, n, k) \<mapsto> v)"
    using b by (auto simp: map_le_def)
  then have "sdict c \<subseteq>\<^sub>m (sdict c1)((m, n, k) \<mapsto> v)"
    using a map_le_trans by blast
  then show ?thesis using None r
    by (simp add: SCongestionProbability_def dumpSDict_def)
qed

lemma do_call_store_mono: "sdict c \<subseteq>\<^sub>m sdict (do_call x c)"
  by (cases x) (simp_all add: SNon_store_mono SCong_store_mono)

lemma run_calls_store_mono: "sdict c \<subseteq>\<^sub>m sdict (run_calls cs c)"
  unfolding run_calls_def
proof (induction cs arbitrary: c)
  case Nil
  show ?case by simp
next
  case (Cons x cs)
  have "sdict c \<subseteq>\<^sub>m sdict (do_call x c)" by (rule do_call_store_mono)
  moreover have "sdict (do_call x c) \<subseteq>\<^sub>m sdict (fold do_call cs (do_call x c))"
    by (rule Cons.IH)
  ultimately show ?case using map_le_trans by (simp, blast)
qed

section \<open>Evaluating the rounding of doubles\<close>

lemma find_unique:
  assumes "P e" "e \<in> set xs" "\<And>y. P y \<Longrightarrow> y = e"
  shows "find P xs = Some e"
  using assms(2)
proof (induction xs)
  case Nil
  then show ?case by simp
next
  case (Cons x xs)
  show ?case
  proof (cases "P x")
    case True
    then show ?thesis using assms(3) by simp
  next
    case False
    then have "x \<noteq> e" using assms(1) by auto
    then show ?thesis using Cons False by simp
  qed
qed

lemma binade_unique:
  fixes a :: real
  assumes "2 powi e \<le> a" "a < 2 powi (e + 1)" "2 powi e' \<le> a" "a < 2 powi (e' + 1)"
  shows "e' = e"
proof (rule ccontr)
  assume ne: "e' \<noteq> e"
  have mono: "\<And>i j :: int. i \<le> j \<Longrightarrow> (2::real) powi i \<le> 2 powi j"
    by (rule power_int_increasing) simp_all
  show False
  proof (cases "e < e'")
    case True
    then have "(2::real) powi (e + 1) \<le> 2 powi e'" by (intro mono) simp
    then show False using assms by simp
  next
    case False
    then have "e' < e" using ne by simp
    then have "(2::real) powi (e' + 1) \<le> 2 powi e" by (intro mono) simp
    then show False using assms by simp
  qed
qed

lemma in_exponent_candidates:
  assumes "- 1100 < e" "e < 1100"
  shows "e \<in> set exponent_candidates"
proof (cases "0 \<le> e")
  case True
  then have "nat e < 1100" "e = int (nat e)" using assms by simp_all
  then have "e \<in> set [- int (nat e), int (nat e)]" "nat e \<in> set [0..<1100]" by simp_all
  then show ?thesis unfolding exponent_candidates_def set_concat set_map by blast
next
  case False
  then have "nat (- e) < 1100" "e = - int (nat (- e))" using assms by simp_all
  then have "e \<in> set [- int (nat (- e)), int (nat (- e))]" "nat (- e) \<in> set [0..<1100]"
    by simp_all
  then show ?thesis unfolding exponent_candidates_def set_concat set_map by blast
qed

lemma double_eval:
  assumes "2 powi e \<le> \<bar>x\<bar>" "\<bar>x\<bar> < 2 powi (e + 1)" "- 1022 \<le> e" "e < 1100"
  shows "double x = of_int (round_even (x * 2 powi (52 - e))) * 2 powi (e - 52)"
proof -
  have "binade \<bar>x\<bar> = Some e"
    unfolding binade_def
  proof (rule find_unique)
    show "2 powi e \<le> \<bar>x\<bar> \<and> \<bar>x\<bar> < 2 powi (e + 1)" using assms by simp
    show "e \<in> set exponent_candidates" using assms by (intro in_exponent_candidates) simp_all
    fix y assume "2 powi y \<le> \<bar>x\<bar> \<and> \<bar>x\<bar> < 2 powi (y + 1)"
    then show "y = e" using binade_unique [of e "\<bar>x\<bar>" y] assms by simp
  qed
  moreover have "\<not> \<bar>x\<bar> < 2 powi (- 1022)"
  proof -
    have "(2::real) powi (- 1022) \<le> 2 powi e" using assms(3) by (intro power_int_increasing) simp_all
    then show ?thesis using assms(1) by simp
  qed
  ultimately show ?thesis by (simp add: double_def)
qed

subsection \<open>Rounding keeps the sign\<close>



subsection \<open>The doubles that the examples compute\<close>



lemma double_sixth: "double (1 / 6) = 6004799503160661 / 2 ^ 55"
  by (subst double_eval [where e = "- 3"])
      (simp_all add: round_even_def power_int_def power_one_over)

text \<open>The running sums of six copies of the double nearest to \<open>1 / 6\<close>.\<close>

lemma sixth_sum:
  "double (6004799503160661 / 2 ^ 55) = 6004799503160661 / 2 ^ 55"
  "double (6004799503160661 / 2 ^ 55 + 6004799503160661 / 2 ^ 55) = 6004799503160661 / 2 ^ 54"
  "double (6004799503160661 / 2 ^ 54 + 6004799503160661 / 2 ^ 55) = 1 / 2"
  "double (1 / 2 + 6004799503160661 / 2 ^ 55) = 6004799503160661 / 2 ^ 53"
  "double (6004799503160661 / 2 ^ 53 + 6004799503160661 / 2 ^ 55) = 3752999689475413 / 2 ^ 52"
  "double (3752999689475413 / 2 ^ 52 + 6004799503160661 / 2 ^ 55) = 1 - 1 / 2 ^ 53"
  subgoal by (subst double_eval [where e = "- 3"])
      (simp_all add: round_even_def power_int_def power_one_over)
  subgoal by (subst double_eval [where e = "- 2"])
      (simp_all add: round_even_def power_int_def power_one_over)
  subgoal by (subst double_eval [where e = "- 2"])
      (simp_all add: round_even_def power_int_def power_one_over)
  subgoal by (subst double_eval [where e = "- 1"])
      (simp_all add: round_even_def power_int_def power_one_over)
  subgoal by (subst double_eval [where e = "- 1"])
      (simp_all add: round_even_def power_int_def power_one_over)
  subgoal by (subst double_eval [where e = "- 1"])
      (simp_all add: round_even_def power_int_def power_one_over)
  done



section \<open>Properties of the graph functions\<close>

subsection \<open>getMinCapacity\<close>

lemma fold_min_Min: "fold min cs (c::real) = Min (set (c # cs))"
proof (induction cs arbitrary: c)
  case Nil
  show ?case by simp
next
  case (Cons a cs)
  have "fold min (a # cs) c = fold min cs (min a c)" by simp
  also have "\<dots> = Min (set (min a c # cs))" by (rule Cons.IH)
  also have "\<dots> = Min (set (c # a # cs))"
  proof (cases "cs = []")
    case True
    then show ?thesis by (simp add: min.commute)
  next
    case False
    then show ?thesis by (simp add: min.assoc min.left_commute min.commute)
  qed
  finally show ?case .
qed

lemma edge_caps_ok:
  assumes "list_all (has_edge dag) es"
  shows "edge_caps dag es = Inr (map (edge_capacity dag) es)"
  using assms
proof (induction es)
  case Nil
  show ?case by simp
next
  case (Cons e es)
  obtain u v where e: "e = (u, v)" by (cases e)
  from Cons.prems obtain ed where ed: "edge_of dag u v = Inr ed"
    by (auto simp: has_edge_def e split: sum.splits)
  have "edge_caps dag es = Inr (map (edge_capacity dag) es)"
    using Cons by simp
  then show ?case using ed by (simp add: e edge_capacity_def)
qed

lemma path_edges_length: "length (path_edges p) = length p - 1"
  by (simp add: path_edges_def)

lemma path_edges_short: "length p < 2 \<Longrightarrow> path_edges p = []"
proof -
  assume "length p < 2"
  then have "length (path_edges p) = 0" by (simp add: path_edges_length)
  then show ?thesis by simp
qed

subsection \<open>getPathProbability\<close>

lemma prob_loop_append:
  "prob_loop rnd dag (xs @ ys) acc =
     (case prob_loop rnd dag xs acc of Inl e \<Rightarrow> Inl e | Inr r \<Rightarrow> prob_loop rnd dag ys r)"
  by (induction xs arbitrary: acc) (auto split: option.splits)

lemma prob_loop_product:
  "prob_loop exact dag xs acc = Inr r \<Longrightarrow>
     r = acc * prod_list (map (\<lambda>v. 1 / real (out_degree dag v)) xs)"
proof (induction xs arbitrary: acc)
  case Nil
  then show ?case by simp
next
  case (Cons x xs)
  from Cons.prems obtain adj where adj: "map_of dag x = Some adj" "length adj \<noteq> 0"
    and rest: "prob_loop exact dag xs (acc * (1 / real (length adj))) = Inr r"
    by (auto split: option.splits if_splits)
  have "r = acc * (1 / real (length adj)) * prod_list (map (\<lambda>v. 1 / real (out_degree dag v)) xs)"
    using Cons.IH [OF rest] .
  then show ?case using adj by (simp add: out_degree_def)
qed

lemma getPathProbability_extend:
  assumes "getPathProbability rnd dag p = Inr q" "p \<noteq> []" "map_of dag (last p) = Some adj"
    "adj \<noteq> []"
  shows "getPathProbability rnd dag (p @ [c]) = Inr (rnd (q * rnd (1 / real (length adj))))"
proof -
  have p: "p = butlast p @ [last p]" using assms(2) by simp
  have "getPathProbability rnd dag (p @ [c]) = prob_loop rnd dag p 1"
    by (simp add: getPathProbability_def)
  also have "\<dots> = prob_loop rnd dag (butlast p @ [last p]) 1" using p by simp
  also have "\<dots> = prob_loop rnd dag [last p] q"
    using assms(1) by (simp only: prob_loop_append getPathProbability_def sum.case)
  also have "\<dots> = Inr (rnd (q * rnd (1 / real (length adj))))" using assms(3,4) by simp
  finally show ?thesis .
qed



lemma sum_from_const:
  "sum_from exact acc (map (\<lambda>c. Inr x) cs) = Inr (acc + real (length cs) * x)"
  by (induction cs arbitrary: acc) (simp_all add: algebra_simps)

lemma sum_results_const:
  "sum_results exact (map (\<lambda>c. Inr x) cs) = Inr (real (length cs) * x)"
  by (simp add: sum_results_def sum_from_const)

lemma has_edge_out_degree:
  assumes "has_edge dag (x, y)"
  shows "0 < out_degree dag x"
proof -
  from assms obtain adj e where "map_of dag x = Some adj" "map_of adj y = Some e"
    by (auto simp: has_edge_def edge_of_def split: option.splits)
  then have "map_of dag x = Some adj" "adj \<noteq> []" by auto
  then show ?thesis by (simp add: out_degree_def)
qed

lemma is_path_out_degree:
  assumes "is_path dag p" "v \<in> set (butlast p)"
  shows "0 < out_degree dag v"
proof -
  have "length (butlast p) = length (tl p)" by simp
  then have "set (butlast p) = fst ` set (path_edges p)"
    unfolding path_edges_def by (metis map_fst_zip set_map)
  then obtain y where "(v, y) \<in> set (path_edges p)" using assms(2) by auto
  then have "has_edge dag (v, y)" using assms(1) by (simp add: is_path_def list_all_iff)
  then show ?thesis by (rule has_edge_out_degree)
qed

lemma prob_loop_ok:
  assumes "\<And>v. v \<in> set xs \<Longrightarrow> 0 < out_degree dag v"
  shows "\<exists>r. prob_loop rnd dag xs acc = Inr r"
  using assms
proof (induction xs arbitrary: acc)
  case Nil
  show ?case by simp
next
  case (Cons x xs)
  have "0 < out_degree dag x" using Cons.prems by simp
  then obtain adj where adj: "map_of dag x = Some adj" "length adj \<noteq> 0"
    by (auto simp: out_degree_def split: option.splits)
  have "\<exists>r. prob_loop rnd dag xs (rnd (acc * rnd (1 / real (length adj)))) = Inr r"
    using Cons.IH Cons.prems by simp
  then show ?case using adj by simp
qed

lemma getPathProbability_ok:
  assumes "is_path dag p"
  shows "\<exists>q. getPathProbability rnd dag p = Inr q"
  unfolding getPathProbability_def
  using is_path_out_degree [OF assms] by (rule prob_loop_ok)

subsection \<open>getAllPathsLimDAG returns the loop-free paths within the hop limit\<close>

lemma path_edges_Cons2: "path_edges (x # y # r) = (x, y) # path_edges (y # r)"
  by (simp add: path_edges_def)

lemma path_edges_single: "path_edges [x] = []"
  by (simp add: path_edges_def)

lemma has_edge_iff:
  "has_edge dag (x, y) \<longleftrightarrow> (\<exists>adj. map_of dag x = Some adj \<and> y \<in> set (map fst adj))"
proof (cases "map_of dag x")
  case None
  then show ?thesis by (simp add: has_edge_def edge_of_def)
next
  case (Some adj)
  have "(map_of adj y \<noteq> None) = (y \<in> fst ` set adj)" by (simp add: map_of_eq_None_iff)
  then show ?thesis using Some
    by (auto simp: has_edge_def edge_of_def split: option.splits)
qed

lemma loop_free_path_same: "loop_free_path dag s s q \<longleftrightarrow> q = [s]"
proof
  assume a: "loop_free_path dag s s q"
  then obtain r where q: "q = s # r" by (cases q) (auto simp: loop_free_path_def)
  have "r = []"
  proof (rule ccontr)
    assume "r \<noteq> []"
    then have "last q \<in> set r" using q by simp
    moreover have "last q = s" "s \<notin> set r" using a q by (auto simp: loop_free_path_def)
    ultimately show False by simp
  qed
  then show "q = [s]" using q by simp
next
  assume "q = [s]"
  then show "loop_free_path dag s s q"
    by (simp add: loop_free_path_def is_path_def path_edges_single)
qed

lemma loop_free_path_step:
  assumes "s \<noteq> t"
  shows "loop_free_path dag s t q \<longleftrightarrow>
     (\<exists>v r. q = s # v # r \<and> has_edge dag (s, v) \<and> loop_free_path dag v t (v # r)
             \<and> s \<notin> set (v # r))"
proof
  assume a: "loop_free_path dag s t q"
  then obtain q' where q: "q = s # q'" by (cases q) (auto simp: loop_free_path_def)
  have "q' \<noteq> []" using a q assms by (auto simp: loop_free_path_def)
  then obtain v r where q': "q' = v # r" by (cases q') auto
  show "\<exists>v r. q = s # v # r \<and> has_edge dag (s, v) \<and> loop_free_path dag v t (v # r)
             \<and> s \<notin> set (v # r)"
    using a q q' by (auto simp: loop_free_path_def is_path_def path_edges_Cons2)
next
  assume "\<exists>v r. q = s # v # r \<and> has_edge dag (s, v) \<and> loop_free_path dag v t (v # r)
             \<and> s \<notin> set (v # r)"
  then show "loop_free_path dag s t q"
    by (auto simp: loop_free_path_def is_path_def path_edges_Cons2)
qed

lemma getAll_same: "getAllPathsLimDAG dag s s k path = [path @ [s]]"
  by (simp add: getAllPathsLimDAG.simps)

lemma getAll_absent:
  "s \<noteq> t \<Longrightarrow> map_of dag s = None \<Longrightarrow> getAllPathsLimDAG dag s t k path = []"
  by (simp add: getAllPathsLimDAG.simps)

lemma getAll_member:
  assumes "s \<noteq> t" "map_of dag s = Some adj"
  shows "x \<in> set (getAllPathsLimDAG dag s t k path) \<longleftrightarrow>
     (\<exists>node \<in> set (map fst adj). node \<notin> set (path @ [s])
         \<and> (k = 0 \<or> int (length (path @ [s])) < k + 1)
         \<and> x \<in> set (getAllPathsLimDAG dag node t k (path @ [s])))"
  using assms
  by (subst getAllPathsLimDAG.simps) (auto split: if_splits)

lemma getAll_complete:
  assumes "loop_free_path dag start end_node q" "set q \<inter> set path = {}"
    "length q = 1 \<or> k = 0 \<or> int (length (path @ q)) \<le> k + 1"
  shows "path @ q \<in> set (getAllPathsLimDAG dag start end_node k path)"
  using assms
proof (induction q arbitrary: start path)
  case Nil
  then show ?case by (simp add: loop_free_path_def)
next
  case (Cons a q)
  show ?case
  proof (cases "start = end_node")
    case True
    then have "a # q = [start]" using Cons.prems(1) by (simp add: loop_free_path_same)
    then show ?thesis using True by (simp add: getAll_same)
  next
    case False
    from Cons.prems(1) False obtain v r where
      q: "a # q = start # v # r" and e: "has_edge dag (start, v)"
      and lf: "loop_free_path dag v end_node (v # r)" and fresh: "start \<notin> set (v # r)"
      using loop_free_path_step [OF False] by blast
    from e obtain adj where adj: "map_of dag start = Some adj" "v \<in> set (map fst adj)"
      using has_edge_iff by metis
    have qq: "q = v # r" "a = start" using q by simp_all
    have disj: "set q \<inter> set (path @ [start]) = {}"
      using Cons.prems(2) fresh qq by auto
    have hop: "k = 0 \<or> int (length (path @ a # q)) \<le> k + 1"
      using Cons.prems(3) qq by auto
    then have hop': "length q = 1 \<or> k = 0 \<or> int (length ((path @ [start]) @ q)) \<le> k + 1"
      by auto
    have rec: "(path @ [start]) @ q \<in> set (getAllPathsLimDAG dag v end_node k (path @ [start]))"
      using Cons.IH [of v "path @ [start]"] lf disj hop' qq by simp
    have vfresh: "v \<notin> set (path @ [start])" using disj qq by auto
    have ext: "k = 0 \<or> int (length (path @ [start])) < k + 1" using hop qq by auto
    have "path @ a # q = (path @ [start]) @ q" using qq by simp
    then show ?thesis
      using getAll_member [OF False adj(1), of "path @ a # q" k path] adj(2) vfresh ext rec
      by auto
  qed
qed

lemma getAll_sound:
  assumes "x \<in> set (getAllPathsLimDAG dag start end_node k path)" "start \<notin> set path"
  shows "\<exists>q. x = path @ q \<and> loop_free_path dag start end_node q \<and> set q \<inter> set path = {}
            \<and> (length q = 1 \<or> k = 0 \<or> int (length (path @ q)) \<le> k + 1)"
  using assms
proof (induction dag start end_node k path arbitrary: x rule: getAllPathsLimDAG.induct)
  case (1 dag start end_node k path)
  show ?case
  proof (cases "start = end_node")
    case True
    then have "x = path @ [start]" using "1.prems"(1) by (simp add: getAll_same)
    then show ?thesis using True "1.prems"(2) by (auto simp: loop_free_path_same)
  next
    case False
    show ?thesis
    proof (cases "map_of dag start")
      case None
      then show ?thesis using "1.prems"(1) False by (simp add: getAll_absent)
    next
      case (Some adj)
      from "1.prems"(1) obtain node where
        node: "node \<in> set (map fst adj)" "node \<notin> set (path @ [start])"
        and ext: "k = 0 \<or> int (length (path @ [start])) < k + 1"
        and mem: "x \<in> set (getAllPathsLimDAG dag node end_node k (path @ [start]))"
        using getAll_member [OF False Some] by blast
      have "\<exists>q. x = (path @ [start]) @ q \<and> loop_free_path dag node end_node q
            \<and> set q \<inter> set (path @ [start]) = {}
            \<and> (length q = 1 \<or> k = 0 \<or> int (length ((path @ [start]) @ q)) \<le> k + 1)"
      proof (cases "k = 0")
        case True
        show ?thesis using "1.IH"(1) [OF False Some node True mem node(2)] .
      next
        case k: False
        then have "int (length (path @ [start])) < k + 1" using ext by simp
        then show ?thesis using "1.IH"(2) [OF False Some node k _ mem node(2)] by blast
      qed
      then obtain q where q: "x = (path @ [start]) @ q" "loop_free_path dag node end_node q"
        "set q \<inter> set (path @ [start]) = {}"
        "length q = 1 \<or> k = 0 \<or> int (length ((path @ [start]) @ q)) \<le> k + 1" by blast
      obtain r where r: "q = node # r" using q(2) by (cases q) (auto simp: loop_free_path_def)
      have e: "has_edge dag (start, node)" using Some node(1) has_edge_iff by metis
      have sfresh: "start \<notin> set q" using q(3) by auto
      have lf: "loop_free_path dag start end_node (start # q)"
        using loop_free_path_step [OF False, of dag "start # q"] r e q(2) sfresh by auto
      have hop: "k = 0 \<or> int (length (path @ start # q)) \<le> k + 1"
        using q(4) ext r by auto
      have "x = path @ (start # q)" using q(1) by simp
      moreover have "set (start # q) \<inter> set path = {}" using q(3) "1.prems"(2) by auto
      ultimately show ?thesis using lf hop by blast
    qed
  qed
qed

lemma getAll_top:
  "set (getAllPathsLimDAG dag s t k []) =
     {q. loop_free_path dag s t q \<and> (length q = 1 \<or> k = 0 \<or> int (length q) \<le> k + 1)}"
proof (intro set_eqI iffI)
  fix x assume "x \<in> set (getAllPathsLimDAG dag s t k [])"
  then show "x \<in> {q. loop_free_path dag s t q \<and> (length q = 1 \<or> k = 0 \<or> int (length q) \<le> k + 1)}"
    using getAll_sound [of x dag s t k "[]"] by auto
next
  fix x assume "x \<in> {q. loop_free_path dag s t q \<and> (length q = 1 \<or> k = 0 \<or> int (length q) \<le> k + 1)}"
  then show "x \<in> set (getAllPathsLimDAG dag s t k [])"
    using getAll_complete [of dag s t x "[]" k] by auto
qed

subsection \<open>The loops of ExactCongestionProbability\<close>

lemma edge_of_set_capacity:
  assumes "edge_of g x y = Inr ed"
  shows "edge_of (set_capacity g x y c) u v =
           (if u = x \<and> v = y then Inr (ed\<lparr>capacity := c\<rparr>) else edge_of g u v)"
proof -
  from assms obtain adj where adj: "map_of g x = Some adj" "map_of adj y = Some ed"
    by (auto simp: edge_of_def split: option.splits)
  have sc: "set_capacity g x y c = AList.update x (AList.update y (ed\<lparr>capacity := c\<rparr>) adj) g"
    using adj by (simp add: set_capacity_def)
  show ?thesis
  proof (cases "u = x")
    case True
    then show ?thesis using adj
      by (simp add: sc edge_of_def update_conv')
  next
    case False
    then show ?thesis by (simp add: sc edge_of_def update_conv')
  qed
qed

lemma set_capacity_no_edge: "\<not> has_edge g (x, y) \<Longrightarrow> set_capacity g x y c = g"
  by (auto simp: has_edge_def edge_of_def set_capacity_def split: option.splits)

lemma has_edge_set_capacity [simp]: "has_edge (set_capacity g x y c) e = has_edge g e"
proof (cases "has_edge g (x, y)")
  case False
  then show ?thesis by (simp add: set_capacity_no_edge)
next
  case True
  then obtain ed where ed: "edge_of g x y = Inr ed"
    by (auto simp: has_edge_def split: sum.splits)
  show ?thesis
    using ed by (cases e) (auto simp: has_edge_def edge_of_set_capacity [OF ed])
qed

lemma edge_mincap_set_capacity [simp]: "edge_mincap (set_capacity g x y c) e = edge_mincap g e"
proof (cases "has_edge g (x, y)")
  case False
  then show ?thesis by (simp add: set_capacity_no_edge)
next
  case True
  then obtain ed where ed: "edge_of g x y = Inr ed"
    by (auto simp: has_edge_def split: sum.splits)
  show ?thesis
    using ed by (cases e) (auto simp: edge_mincap_def edge_of_set_capacity [OF ed])
qed


lemma has_edge_run_steps [simp]: "has_edge (snd (run_steps g st)) e = has_edge g e"
  by (induction g st rule: run_steps.induct) (simp_all add: Let_def)

lemma edge_mincap_run_steps [simp]: "edge_mincap (snd (run_steps g st)) e = edge_mincap g e"
  by (induction g st rule: run_steps.induct) (simp_all add: Let_def)



lemma alloc_steps_Nil [simp]: "alloc_steps sizes i [] = []"
  by (simp add: alloc_steps_def)
















subsection \<open>The probabilities of the enumerated paths add up to at most 1\<close>






lemma sum_list_filter_le:
  assumes "\<And>x. x \<in> set xs \<Longrightarrow> 0 \<le> (f x :: real)"
  shows "sum_list (map f (filter P xs)) \<le> sum_list (map f xs)"
  using assms
proof (induction xs)
  case Nil
  show ?case by simp
next
  case (Cons x xs)
  have "0 \<le> f x" using Cons.prems by simp
  moreover have "sum_list (map f (filter P xs)) \<le> sum_list (map f xs)" using Cons by simp
  ultimately show ?case by simp
qed
















subsection \<open>Values on the example inputs\<close>




text \<open>
  The node with six successors: each extension of the path \<open>[0]\<close> gets the double nearest to
  \<open>1 / 6\<close>, and six of them do not add up to 1.
\<close>

lemma fan6_successors: "successors fan6 (last [0]) = [1, 2, 3, 4, 5, 6]"
  by (simp add: successors_def fan6_def)

lemma fan6_extension:
  "getPathProbability double fan6 ([0] @ [c]) = Inr (6004799503160661 / 2 ^ 55)"
proof -
  have "getPathProbability double fan6 ([0] @ [c]) = Inr (double (1 * double (1 / 6)))"
    by (simp add: getPathProbability_def fan6_def)
  then show ?thesis by (simp only: double_sixth mult_1 sixth_sum(1))
qed

lemma replicate_six: "replicate 6 x = [x, x, x, x, x, x]"
  by (simp add: eval_nat_numeral)

lemma fan6_results:
  "map (\<lambda>c. getPathProbability double fan6 ([0] @ [c])) (successors fan6 (last [0]))
     = replicate 6 (Inr (6004799503160661 / 2 ^ 55))"
  by (simp only: fan6_successors fan6_extension list.map replicate_six)

lemma fan6_sum_double:
  "sum_results double (replicate 6 (Inr (6004799503160661 / 2 ^ 55))) = Inr (1 - 1 / 2 ^ 53)"
  by (simp only: replicate_six sum_results_def sum_from.simps add_0 sixth_sum)

lemma fan6_sum_exact:
  "sum_results exact (replicate 6 (Inr (6004799503160661 / 2 ^ 55))) = Inr (1 - 1 / 2 ^ 54)"
  by (simp add: replicate_six sum_results_def)






section \<open>Properties of the allocation list\<close>

subsection \<open>Removing repetitions\<close>

lemma fold_append_if_new:
  assumes "distinct acc"
  shows "distinct (fold append_if_new xs acc) \<and> set (fold append_if_new xs acc) = set acc \<union> set xs"
  using assms
proof (induction xs arbitrary: acc)
  case Nil
  then show ?case by simp
next
  case (Cons x xs)
  have d: "distinct (append_if_new x acc)" using Cons.prems by (simp add: append_if_new_def)
  have s: "set (append_if_new x acc) = insert x (set acc)" by (auto simp: append_if_new_def)
  show ?case using Cons.IH [OF d] s by simp
qed

subsection \<open>permutations\<close>

lemma permutations_Cons_set:
  "set (permutations (x # xs)) =
     (\<Union>i \<in> {0..<length (x # xs)}.
        (#) ((x # xs) ! i) ` set (permutations (take i (x # xs) @ drop (Suc i) (x # xs))))"
  by (subst permutations.simps) (simp del: upt_Suc nth_Cons_Suc take_Suc_Cons drop_Suc_Cons length_Cons)

lemma mset_remove_nth:
  assumes "i < length ys"
  shows "mset ys = add_mset (ys ! i) (mset (take i ys @ drop (Suc i) ys))"
proof -
  have "ys = take i ys @ ys ! i # drop (Suc i) ys" using assms by (rule id_take_nth_drop)
  then have "mset ys = mset (take i ys @ ys ! i # drop (Suc i) ys)" by simp
  then show ?thesis by simp
qed

lemma set_permutations: "set (permutations xs) = {ys. mset ys = mset xs}"
proof (induction xs rule: permutations.induct)
  case 1
  show ?case by (simp add: permutations.simps)
next
  case (2 x xs)
  let ?ys = "x # xs"
  have IH: "set (permutations (take i ?ys @ drop (Suc i) ?ys))
              = {zs. mset zs = mset (take i ?ys @ drop (Suc i) ?ys)}" if "i < length ?ys" for i
    using "2.IH" [of i] that by (simp del: upt_Suc)
  show ?case
  proof (intro set_eqI iffI)
    fix p assume "p \<in> set (permutations ?ys)"
    then obtain i q where i: "i < length ?ys" and p: "p = ?ys ! i # q"
      and q: "q \<in> set (permutations (take i ?ys @ drop (Suc i) ?ys))"
      unfolding permutations_Cons_set by auto
    have "mset q = mset (take i ?ys @ drop (Suc i) ?ys)" using q IH [OF i] by simp
    then have "mset p = mset ?ys" using p mset_remove_nth [OF i] by simp
    then show "p \<in> {ys. mset ys = mset ?ys}" by simp
  next
    fix p assume "p \<in> {ys. mset ys = mset ?ys}"
    then have mp: "mset p = mset ?ys" by simp
    then have "p \<noteq> []" by auto
    then obtain y q where p: "p = y # q" by (cases p) auto
    have "y \<in># mset ?ys" using mp p by (metis list.set_intros(1) set_mset_mset)
    then have "y \<in> set ?ys" by simp
    then obtain i where i: "i < length ?ys" and yi: "?ys ! i = y"
      unfolding in_set_conv_nth by blast
    have "add_mset y (mset q) = add_mset y (mset (take i ?ys @ drop (Suc i) ?ys))"
      using mp p mset_remove_nth [OF i] yi by simp
    then have "mset q = mset (take i ?ys @ drop (Suc i) ?ys)" by simp
    then have "q \<in> set (permutations (take i ?ys @ drop (Suc i) ?ys))" using IH [OF i] by simp
    then show "p \<in> set (permutations ?ys)"
      unfolding permutations_Cons_set using i yi p by auto
  qed
qed

subsection \<open>combinations with replacement\<close>

lemma set_combinations_with_replacement:
  fixes pool :: "'a::linorder list"
  assumes "sorted pool" "distinct pool"
  shows "set (combinations_with_replacement pool r)
           = {t. length t = r \<and> set t \<subseteq> set pool \<and> sorted t}"
  using assms
proof (induction pool r rule: combinations_with_replacement.induct)
  case (1 pool)
  show ?case by auto
next
  case (2 r)
  show ?case by auto
next
  case (3 x xs r)
  have sx: "sorted xs" "distinct xs" using "3.prems" by simp_all
  have low: "\<And>y. y \<in> set xs \<Longrightarrow> x < y" using "3.prems" by (auto simp: le_less)
  have IH1: "set (combinations_with_replacement (x # xs) r)
               = {t. length t = r \<and> set t \<subseteq> set (x # xs) \<and> sorted t}"
    using "3.IH"(1) [OF "3.prems"] .
  have IH2: "set (combinations_with_replacement xs (Suc r))
               = {t. length t = Suc r \<and> set t \<subseteq> set xs \<and> sorted t}"
    using "3.IH"(2) [OF sx] .
  show ?case
  proof (intro set_eqI iffI)
    fix t assume "t \<in> set (combinations_with_replacement (x # xs) (Suc r))"
    then consider (a) t' where "t = x # t'" "t' \<in> set (combinations_with_replacement (x # xs) r)"
      | (b) "t \<in> set (combinations_with_replacement xs (Suc r))"
      by auto
    then show "t \<in> {t. length t = Suc r \<and> set t \<subseteq> set (x # xs) \<and> sorted t}"
    proof cases
      case a
      then have t': "length t' = r" "set t' \<subseteq> set (x # xs)" "sorted t'" using IH1 by auto
      have "\<And>y. y \<in> set t' \<Longrightarrow> x \<le> y" using t'(2) low by (auto simp: le_less)
      then show ?thesis using a(1) t' by auto
    next
      case b
      then show ?thesis using IH2 by auto
    qed
  next
    fix t assume "t \<in> {t. length t = Suc r \<and> set t \<subseteq> set (x # xs) \<and> sorted t}"
    then have t: "length t = Suc r" "set t \<subseteq> set (x # xs)" "sorted t" by auto
    then obtain y t' where yt: "t = y # t'" by (cases t) auto
    show "t \<in> set (combinations_with_replacement (x # xs) (Suc r))"
    proof (cases "y = x")
      case True
      have "t' \<in> set (combinations_with_replacement (x # xs) r)" using IH1 t yt by auto
      then show ?thesis using yt True by simp
    next
      case False
      then have yx: "y \<in> set xs" using t(2) yt by auto
      have "x \<notin> set t"
      proof
        assume "x \<in> set t"
        then have "y \<le> x" using t(3) yt by auto
        then show False using low [OF yx] by simp
      qed
      then have "set t \<subseteq> set xs" using t(2) by auto
      then have "t \<in> set (combinations_with_replacement xs (Suc r))" using IH2 t by auto
      then show ?thesis by simp
    qed
  qed
qed

subsection \<open>The permutations of the combinations\<close>

lemma set_all_allocs:
  fixes pool :: "'a::linorder list"
  assumes "sorted pool" "distinct pool"
  shows "set (concat (map permutations (combinations_with_replacement pool r)))
           = {t. length t = r \<and> set t \<subseteq> set pool}"
proof (intro set_eqI iffI)
  fix t assume "t \<in> set (concat (map permutations (combinations_with_replacement pool r)))"
  then obtain c where c: "c \<in> set (combinations_with_replacement pool r)"
    and t: "t \<in> set (permutations c)" by auto
  have c': "length c = r" "set c \<subseteq> set pool"
    using c set_combinations_with_replacement [OF assms, of r] by auto
  have m: "mset t = mset c" using t by (simp add: set_permutations)
  have "length t = length c" using m by (rule mset_eq_length)
  moreover have "set t = set c" using m by (rule mset_eq_setD)
  ultimately show "t \<in> {t. length t = r \<and> set t \<subseteq> set pool}" using c' by simp
next
  fix t assume "t \<in> {t. length t = r \<and> set t \<subseteq> set pool}"
  then have t: "length t = r" "set t \<subseteq> set pool" by auto
  have "sort t \<in> set (combinations_with_replacement pool r)"
    using t set_combinations_with_replacement [OF assms, of r] by simp
  moreover have "t \<in> set (permutations (sort t))" by (simp add: set_permutations)
  ultimately show "t \<in> set (concat (map permutations (combinations_with_replacement pool r)))"
    by auto
qed

section \<open>The recurrence and the memoization store\<close>

text \<open>
  Claim C2, as stated, fails: for the non-negative triple \<open>(0, 1, 1)\<close>, absent from the
  store, \<open>n \<le> k\<close> holds and the function returns 0, because \<open>m * k < n\<close> is tested first.
\<close>

theorem SNon_base_cases_counterexample:
  "sdict empty_calc (0, 1, 1) = None \<and> (0::int) \<le> 0 \<and> (0::int) \<le> 1 \<and> (1::int) \<le> 1
   \<and> fst (SNonCongestionProbability 0 1 1 empty_calc) \<noteq> 1"
  by (simp add: empty_calc_def SNon_zero)

text \<open>
  Claim C2, amended.  For every triple \<open>(m, n, k)\<close> that is not in the store,
  \<open>SNonCongestionProbability\<close> returns 0 whenever \<open>m * k < n\<close>, and returns 1 whenever
  \<open>n \<le> k\<close> and not \<open>m * k < n\<close>; the latter covers every \<open>n \<le> k\<close> with \<open>m \<ge> 1\<close> and
  \<open>k \<ge> 0\<close>.
\<close>

theorem SNon_base_cases:
  assumes "sdict c (m, n, k) = None"
  shows "(m * k < n \<longrightarrow> fst (SNonCongestionProbability m n k c) = 0)
       \<and> (n \<le> k \<and> \<not> m * k < n \<longrightarrow> fst (SNonCongestionProbability m n k c) = 1)
       \<and> (n \<le> k \<and> 1 \<le> m \<and> 0 \<le> k \<longrightarrow> fst (SNonCongestionProbability m n k c) = 1)"
proof -
  have "\<not> m * k < n" if "n \<le> k" "1 \<le> m" "0 \<le> k"
  proof -
    have "1 * k \<le> m * k" using that by (intro mult_right_mono) simp_all
    then show ?thesis using that by simp
  qed
  then show ?thesis using assms by (auto simp: SNon_zero SNon_one)
qed

theorem SNon_base_cases_witness:
  "fst (SNonCongestionProbability 2 5 1 empty_calc) = 0
   \<and> fst (SNonCongestionProbability 3 2 5 empty_calc) = 1"
  using SNon_base_cases [of empty_calc 2 5 1] SNon_base_cases [of empty_calc 3 2 5]
  by (simp add: empty_calc_def)

text \<open>
  Claim C5.  \<open>SNonCongestionProbability\<close> never writes the dump file.
  \<open>SCongestionProbability\<close> writes the whole in-memory store to it exactly when the key was
  absent from the store at the call; on a hit it writes nothing.
\<close>

theorem dump_file_writes:
  "dfile (snd (SNonCongestionProbability m n k c)) = dfile c
   \<and> dfile (snd (SCongestionProbability m n k c))
       = (if sdict c (m, n, k) = None
          then sdict (snd (SCongestionProbability m n k c)) # dfile c
          else dfile c)"
proof (cases "sdict c (m, n, k)")
  case None
  obtain v c1 where r: "SNonCongestionProbability m n k c = (v, c1)"
    by (cases "SNonCongestionProbability m n k c")
  have "dfile c1 = dfile c" using SNon_dfile [of m n k c] r by simp
  then show ?thesis using None r
    by (simp add: SCongestionProbability_def dumpSDict_def)
next
  case (Some v)
  then show ?thesis
    by (simp add: SCongestionProbability_def SNon_dfile)
qed

text \<open>
  Claim C6.  In every sequence of calls of \<open>SNonCongestionProbability\<close> and
  \<open>SCongestionProbability\<close> on one object, a key that is bound to a value after some prefix of
  the sequence is bound to the same value after every longer prefix.
\<close>

theorem store_values_never_change:
  assumes "sdict (run_calls cs c) key = Some v"
  shows "sdict (run_calls (cs @ cs') c) key = Some v"
proof -
  have split: "run_calls (cs @ cs') c = run_calls cs' (run_calls cs c)"
    by (simp add: run_calls_def)
  have "key \<in> dom (sdict (run_calls cs c))" using assms by (simp add: domI)
  then have "sdict (run_calls cs c) key = sdict (run_calls cs' (run_calls cs c)) key"
    using run_calls_store_mono [of "run_calls cs c" cs'] by (simp add: map_le_def)
  then show ?thesis using assms split by simp
qed

theorem store_values_never_change_witness:
  "sdict (run_calls [] demo_calc) (2, 3, 2) = Some (3 / 4)
   \<and> sdict (run_calls ([] @ [CallSCong 3 4 2, CallSNon 2 3 2, CallSCong 2 5 1]) demo_calc)
         (2, 3, 2) = Some (3 / 4)"
proof -
  have h: "sdict (run_calls [] demo_calc) (2, 3, 2) = Some (3 / 4)"
    by (simp add: run_calls_def demo_calc_def)
  show ?thesis using h store_values_never_change [OF h] by simp
qed

section \<open>Paths, bottlenecks and path probabilities\<close>

text \<open>
  Claim C4.  For every graph, \<open>start\<close> and \<open>end\<close>: every path returned by
  \<open>getAllPathsLimDAG\<close> (called with the default empty \<open>path\<close>) starts at \<open>start\<close>, ends
  at \<open>end\<close>, repeats no node and follows edges of the graph; with \<open>k = 0\<close> the paths returned
  are exactly the loop-free directed paths from \<open>start\<close> to \<open>end\<close>; with \<open>k > 0\<close> every
  returned path has at most \<open>k\<close> edges.  On the diamond the call with \<open>k = 0\<close> returns the
  two paths through \<open>RB\<close> and through \<open>RC\<close>.
\<close>

theorem all_paths_limited:
  "(\<forall>p \<in> set (getAllPathsLimDAG dag start end_node k []).
       p \<noteq> [] \<and> hd p = start \<and> last p = end_node \<and> distinct p \<and> is_path dag p)
   \<and> (k = 0 \<longrightarrow>
        set (getAllPathsLimDAG dag start end_node k []) = {p. loop_free_path dag start end_node p})
   \<and> (0 < k \<longrightarrow>
        (\<forall>p \<in> set (getAllPathsLimDAG dag start end_node k []). int (length (path_edges p)) \<le> k))
   \<and> getAllPathsLimDAG diamond RA RD 0 [] = [[RA, RB, RD], [RA, RC, RD]]"
proof (intro conjI impI ballI)
  fix p assume "p \<in> set (getAllPathsLimDAG dag start end_node k [])"
  then have lf: "loop_free_path dag start end_node p" by (simp add: getAll_top)
  then show "p \<noteq> []" "hd p = start" "last p = end_node" "distinct p" "is_path dag p"
    by (simp_all add: loop_free_path_def)
next
  assume "k = 0"
  then show "set (getAllPathsLimDAG dag start end_node k []) = {p. loop_free_path dag start end_node p}"
    by (simp add: getAll_top)
next
  fix p assume k: "0 < k" and "p \<in> set (getAllPathsLimDAG dag start end_node k [])"
  then have "length p = 1 \<or> k = 0 \<or> int (length p) \<le> k + 1" by (simp add: getAll_top)
  then show "int (length (path_edges p)) \<le> k" using k by (auto simp: path_edges_length)
next
  show "getAllPathsLimDAG diamond RA RD 0 [] = [[RA, RB, RD], [RA, RC, RD]]"
    by (simp add: getAllPathsLimDAG.simps diamond_def)
qed

theorem all_paths_limited_witness:
  "getAllPathsLimDAG diamond RA RD 0 [] = [[RA, RB, RD], [RA, RC, RD]]
   \<and> loop_free_path diamond RA RD [RA, RC, RD]
   \<and> getAllPathsLimDAG diamond RA RD 2 [] = [[RA, RB, RD], [RA, RC, RD]]
   \<and> int (length (path_edges [RA, RB, RD])) \<le> 2
   \<and> getAllPathsLimDAG diamond RA RD 1 [] = []"
proof -
  have k0: "getAllPathsLimDAG diamond RA RD 0 [] = [[RA, RB, RD], [RA, RC, RD]]"
    by (simp add: getAllPathsLimDAG.simps diamond_def)
  have k2: "getAllPathsLimDAG diamond RA RD 2 [] = [[RA, RB, RD], [RA, RC, RD]]"
    by (simp add: getAllPathsLimDAG.simps diamond_def)
  have k1: "getAllPathsLimDAG diamond RA RD 1 [] = []"
    by (simp add: getAllPathsLimDAG.simps diamond_def)
  have "[RA, RC, RD] \<in> {p. loop_free_path diamond RA RD p}"
    using all_paths_limited [of diamond RA RD 0] k0 by auto
  moreover have "int (length (path_edges [RA, RB, RD])) \<le> 2"
    using all_paths_limited [of diamond RA RD 2] k2 by auto
  ultimately show ?thesis using k0 k1 k2 by simp
qed

text \<open>
  Claim C8.  For every graph and every path with at least two nodes whose consecutive pairs
  are edges of the graph, \<open>getMinCapacity\<close> returns the minimum of the capacities of the
  edges of the path; for a path with fewer than two nodes it raises (\<open>ValueError\<close>, from
  \<open>min\<close> of an empty list) and returns no value.  On the chain with the edge capacities
  10, 3 and 7 it returns 3.
\<close>

theorem getMinCapacity_bottleneck:
  "(2 \<le> length path \<and> is_path dag path \<longrightarrow>
      getMinCapacity dag path = Inr (Min (edge_capacity dag ` set (path_edges path))))
   \<and> (length path < 2 \<longrightarrow> getMinCapacity dag path = Inl ValueError)"
proof (intro conjI impI)
  assume a: "2 \<le> length path \<and> is_path dag path"
  then have caps: "edge_caps dag (path_edges path) = Inr (map (edge_capacity dag) (path_edges path))"
    by (simp add: is_path_def edge_caps_ok)
  have "length (path_edges path) \<noteq> 0" using a by (simp add: path_edges_length)
  then obtain e es where es: "path_edges path = e # es" by (cases "path_edges path") auto
  show "getMinCapacity dag path = Inr (Min (edge_capacity dag ` set (path_edges path)))"
    using caps es by (simp add: getMinCapacity_def py_min_def fold_min_Min)
next
  assume "length path < 2"
  then show "getMinCapacity dag path = Inl ValueError"
    by (simp add: getMinCapacity_def path_edges_short py_min_def)
qed

theorem getMinCapacity_bottleneck_witness:
  "getMinCapacity chain [RA, RB, RC, RD] = Inr 3 \<and> getMinCapacity chain [RA] = Inl ValueError
   \<and> getMinCapacity chain [] = Inl ValueError"
  using getMinCapacity_bottleneck [of "[RA, RB, RC, RD]" chain]
    getMinCapacity_bottleneck [of "[RA]" chain] getMinCapacity_bottleneck [of "[]" chain]
  by (simp add: is_path_def path_edges_def has_edge_def edge_of_def edge_capacity_def chain_def)

section \<open>Splitting the probability of a path among the successors\<close>

text \<open>
  Claim C9, as stated, fails in the arithmetic of doubles.  The node 0 of \<open>fan6\<close> has six
  successors; \<open>getPathProbability\<close> returns 1 on the path \<open>[0]\<close> and the double nearest to
  \<open>1 / 6\<close>, which is \<open>6004799503160661 / 2 ^ 55\<close>, on each of the six extensions.  Added
  from left to right as doubles the six results give \<open>1 - 1 / 2 ^ 53\<close>, and added exactly
  they give \<open>1 - 1 / 2 ^ 54\<close>: not 1 either way.
\<close>

theorem path_probability_split_counterexample:
  "is_path fan6 [0] \<and> out_degree fan6 (last [0]) = 6
   \<and> getPathProbability double fan6 [0] = Inr 1
   \<and> map (\<lambda>c. getPathProbability double fan6 ([0] @ [c])) (successors fan6 (last [0]))
       = replicate 6 (Inr (6004799503160661 / 2 ^ 55))
   \<and> sum_results double
         (map (\<lambda>c. getPathProbability double fan6 ([0] @ [c])) (successors fan6 (last [0])))
       = Inr (1 - 1 / 2 ^ 53)
   \<and> sum_results exact
         (map (\<lambda>c. getPathProbability double fan6 ([0] @ [c])) (successors fan6 (last [0])))
       = Inr (1 - 1 / 2 ^ 54)
   \<and> (1 - 1 / 2 ^ 53 :: real) \<noteq> 1 \<and> (1 - 1 / 2 ^ 54 :: real) \<noteq> 1
   \<and> sum_results double
         (map (\<lambda>c. getPathProbability double fan6 ([0] @ [c])) (successors fan6 (last [0])))
       \<noteq> getPathProbability double fan6 [0]"
proof -
  have path: "is_path fan6 [0]" by (simp add: is_path_def path_edges_def)
  have deg: "out_degree fan6 (last [0]) = 6" by (simp add: out_degree_def fan6_def)
  have top: "getPathProbability double fan6 [0] = Inr 1" by (simp add: getPathProbability_def)
  have rounded: "sum_results double
         (map (\<lambda>c. getPathProbability double fan6 ([0] @ [c])) (successors fan6 (last [0])))
       = Inr (1 - 1 / 2 ^ 53)"
    by (simp only: fan6_results fan6_sum_double)
  have unrounded: "sum_results exact
         (map (\<lambda>c. getPathProbability double fan6 ([0] @ [c])) (successors fan6 (last [0])))
       = Inr (1 - 1 / 2 ^ 54)"
    by (simp only: fan6_results fan6_sum_exact)
  show ?thesis using path deg top fan6_results rounded unrounded by simp
qed

text \<open>
  Claim C9, amended.  For every graph, every rounding \<open>rnd\<close> of the float operations and
  every directed path \<open>p\<close> that ends at a node with \<open>d > 0\<close> successors, \<open>getPathProbability\<close>
  returns on \<open>p\<close>, say \<open>q\<close>, and on every extension of \<open>p\<close> by one node it returns the same
  value, the rounded product of \<open>q\<close> and the rounded \<open>1 / d\<close>.  In exact arithmetic, where
  nothing is rounded, the sum of the results over the \<open>d\<close> successors is \<open>q\<close>, and \<open>q\<close> is the
  product of \<open>1 / out_degree\<close> over the nodes of \<open>p\<close> other than the last.
\<close>

theorem path_probability_split:
  assumes "p \<noteq> []" "is_path dag p" "0 < out_degree dag (last p)"
  shows "(\<exists>q. getPathProbability rnd dag p = Inr q
            \<and> (\<forall>c. getPathProbability rnd dag (p @ [c])
                      = Inr (rnd (q * rnd (1 / real (out_degree dag (last p)))))))
       \<and> (\<exists>q. getPathProbability exact dag p = Inr q
            \<and> sum_results exact
                  (map (\<lambda>c. getPathProbability exact dag (p @ [c])) (successors dag (last p)))
                = Inr q
            \<and> q = prod_list (map (\<lambda>v. 1 / real (out_degree dag v)) (butlast p)))"
proof -
  from assms(3) obtain adj where adj: "map_of dag (last p) = Some adj" "adj \<noteq> []"
    by (auto simp: out_degree_def split: option.splits)
  have deg: "out_degree dag (last p) = length adj" using adj by (simp add: out_degree_def)
  have first: "\<exists>q. getPathProbability r dag p = Inr q
            \<and> (\<forall>c. getPathProbability r dag (p @ [c])
                      = Inr (r (q * r (1 / real (out_degree dag (last p))))))" for r
  proof -
    obtain q where q: "getPathProbability r dag p = Inr q"
      using getPathProbability_ok [OF assms(2)] by blast
    have "getPathProbability r dag (p @ [c]) = Inr (r (q * r (1 / real (length adj))))" for c
      using q assms(1) adj by (rule getPathProbability_extend)
    then show ?thesis using q deg by simp
  qed
  obtain q where q: "getPathProbability exact dag p = Inr q"
    and each: "\<And>c. getPathProbability exact dag (p @ [c]) = Inr (q * (1 / real (length adj)))"
    using first [of exact] deg by auto
  have "sum_results exact (map (\<lambda>c. getPathProbability exact dag (p @ [c])) (successors dag (last p)))
          = Inr (real (length (successors dag (last p))) * (q * (1 / real (length adj))))"
    by (simp only: each sum_results_const)
  also have "\<dots> = Inr q" using adj by (simp add: successors_def)
  finally have a: "sum_results exact
        (map (\<lambda>c. getPathProbability exact dag (p @ [c])) (successors dag (last p))) = Inr q" .
  have b: "q = prod_list (map (\<lambda>v. 1 / real (out_degree dag v)) (butlast p))"
    using prob_loop_product [of dag "butlast p" 1 q] q by (simp add: getPathProbability_def)
  show ?thesis using first [of rnd] q a b by blast
qed

theorem path_probability_split_witness:
  "getPathProbability double fan6 [0] = Inr 1
   \<and> (\<forall>c. getPathProbability double fan6 ([0] @ [c]) = Inr (6004799503160661 / 2 ^ 55))
   \<and> getPathProbability exact fan6 [0] = Inr 1
   \<and> sum_results exact (map (\<lambda>c. getPathProbability exact fan6 ([0] @ [c]))
                       (successors fan6 (last [0]))) = Inr 1
   \<and> getPathProbability exact diamond [RA, RB] = Inr (1 / 2)
   \<and> sum_results exact (map (\<lambda>c. getPathProbability exact diamond ([RA, RB] @ [c]))
                       (successors diamond (last [RA, RB]))) = Inr (1 / 2)"
proof -
  have f1: "[0::nat] \<noteq> []" and f2: "is_path fan6 [0]" and f3: "0 < out_degree fan6 (last [0])"
    by (simp_all add: is_path_def path_edges_def out_degree_def fan6_def)
  have d1: "[RA, RB] \<noteq> []" and d2: "is_path diamond [RA, RB]"
    and d3: "0 < out_degree diamond (last [RA, RB])"
    by (simp_all add: is_path_def path_edges_def has_edge_def edge_of_def out_degree_def
        diamond_def)
  have top: "getPathProbability r fan6 [0] = Inr 1" for r
    by (simp add: getPathProbability_def)
  have ab: "getPathProbability exact diamond [RA, RB] = Inr (1 / 2)"
    by (simp add: getPathProbability_def diamond_def)
  have deg: "real (out_degree fan6 (last [0])) = 6" by (simp add: out_degree_def fan6_def)
  from path_probability_split [OF f1 f2 f3, of double] obtain q where
    q: "getPathProbability double fan6 [0] = Inr q"
    and e: "\<And>c. getPathProbability double fan6 ([0] @ [c])
                = Inr (double (q * double (1 / real (out_degree fan6 (last [0])))))"
    by blast
  have q1: "q = 1" using q top [of double] by simp
  have ext: "getPathProbability double fan6 ([0] @ [c]) = Inr (6004799503160661 / 2 ^ 55)" for c
    by (simp only: e q1 deg mult_1 double_sixth sixth_sum(1))
  from path_probability_split [OF f1 f2 f3, of exact] obtain q' where
    "getPathProbability exact fan6 [0] = Inr q'"
    and "sum_results exact (map (\<lambda>c. getPathProbability exact fan6 ([0] @ [c]))
                       (successors fan6 (last [0]))) = Inr q'"
    by blast
  then have s6: "sum_results exact (map (\<lambda>c. getPathProbability exact fan6 ([0] @ [c]))
                       (successors fan6 (last [0]))) = Inr 1"
    using top [of exact] by simp
  from path_probability_split [OF d1 d2 d3, of exact] obtain q'' where
    "getPathProbability exact diamond [RA, RB] = Inr q''"
    and "sum_results exact (map (\<lambda>c. getPathProbability exact diamond ([RA, RB] @ [c]))
                       (successors diamond (last [RA, RB]))) = Inr q''"
    by blast
  then have s2: "sum_results exact (map (\<lambda>c. getPathProbability exact diamond ([RA, RB] @ [c]))
                       (successors diamond (last [RA, RB]))) = Inr (1 / 2)"
    using ab by simp
  show ?thesis using top [of double] ext top [of exact] s6 ab s2 by (intro conjI allI)
qed

section \<open>Exact enumeration\<close>



section \<open>The range of the probabilities\<close>




section \<open>The allocations sampled by \<open>SampledCongestionProbability\<close>\<close>

text \<open>
  Claim C7.  In \<open>SampledCongestionProbability\<close> with the capacity list \<open>m\<close> and the flow-size
  list \<open>n\<close>, the list \<open>final_allocs\<close> contains every tuple of length \<open>len(n)\<close> over the path
  indices \<open>0, ..., len(m) - 1\<close> exactly once; its length is \<open>len(m)\<close> to the power
  \<open>len(n)\<close>.
\<close>

theorem final_allocs_all_tuples:
  "distinct (final_allocs m n)
   \<and> set (final_allocs m n) = {t. length t = length n \<and> set t \<subseteq> {0..<length m}}
   \<and> length (final_allocs m n) = length m ^ length n"
proof -
  let ?all = "concat (map permutations (combinations_with_replacement [0..<length m] (length n)))"
  have f: "final_allocs m n = fold append_if_new ?all []" by (simp add: final_allocs_def)
  have d: "distinct (final_allocs m n)" and s: "set (final_allocs m n) = set ?all"
    using fold_append_if_new [of "[]" ?all] by (simp_all add: f)
  have s': "set (final_allocs m n) = {t. length t = length n \<and> set t \<subseteq> {0..<length m}}"
    using set_all_allocs [of "[0..<length m]" "length n"] s by simp
  have "length (final_allocs m n) = card (set (final_allocs m n))"
    using d by (simp add: distinct_card)
  also have "\<dots> = card {t. set t \<subseteq> {0..<length m} \<and> length t = length n}"
    unfolding s' by (rule arg_cong [where f = card]) auto
  also have "\<dots> = card {0..<length m} ^ length n"
    by (rule card_lists_length_eq) simp
  finally have "length (final_allocs m n) = length m ^ length n" by simp
  then show ?thesis using d s' by simp
qed

end
